theory Spec2Isabelle
  imports Complex_Main "HOL-Library.Multiset"
begin

section \<open>Rollouts and the flattening of frames\<close>

text \<open>
  Modelled from the spec: the \<^verbatim>\<open>Rollout\<close> class (module \<^verbatim>\<open>anyrl.rollouts\<close>) is used by
  \<^verbatim>\<open>feedforward.py\<close> and \<^verbatim>\<open>logger.py\<close> but is not among the sources. A rollout holds the
  observations of the steps that were taken, which the sources read as
  \<^verbatim>\<open>step_observations\<close>. A rollout that a length or time limit cut off holds one more
  observation, the next one, for which no step was taken: the trailing observation of
  the specification. \<open>trunc_end\<close> says that such an observation is left over, and
  \<open>recorded_observations\<close> are all observations of the rollout, the trailing one
  included. This is how the docstring of \<^verbatim>\<open>_frames_from_rollouts\<close> reads the class: the
  frames of \<^verbatim>\<open>step_observations\<close> do not include trailing observations for truncated
  rollouts. Rewards and time stamps are Python floats, idealised here as reals (rounding
  is not modelled).
\<close>

record 'o rollout =
  step_observations :: "'o list"
  trailing_observation :: "'o option"
  total_reward :: real
  total_steps :: int
  end_time :: real

definition trunc_end :: "'o rollout \<Rightarrow> bool" where
  "trunc_end rollout = (trailing_observation rollout \<noteq> None)"


datatype error = TypeError | IndexError | EmptyDataError | MalformedLog

text \<open>
  \<^verbatim>\<open>_frames_from_rollouts\<close> (feedforward.py, lines 122-142). The three result lists
  \<^verbatim>\<open>all_obs\<close>, \<^verbatim>\<open>rollout_indices\<close>, \<^verbatim>\<open>timestep_indices\<close> are accumulators that both loops
  append to. The inner loop is \<^verbatim>\<open>for timestep_idx, obs in enumerate(rollout.step_observations)\<close>,
  the outer loop is \<^verbatim>\<open>for rollout_idx, rollout in enumerate(rollouts)\<close>.
\<close>

type_synonym 'o frames = "'o list \<times> nat list \<times> nat list"

fun timestep_loop :: "nat \<Rightarrow> nat \<Rightarrow> 'o list \<Rightarrow> 'o frames \<Rightarrow> 'o frames" where
  "timestep_loop rollout_idx timestep_idx [] acc = acc"
| "timestep_loop rollout_idx timestep_idx (obs # rest) (all_obs, rollout_indices, timestep_indices) =
     timestep_loop rollout_idx (Suc timestep_idx) rest
       (all_obs @ [obs], rollout_indices @ [rollout_idx], timestep_indices @ [timestep_idx])"

fun rollout_loop :: "nat \<Rightarrow> 'o rollout list \<Rightarrow> 'o frames \<Rightarrow> 'o frames" where
  "rollout_loop rollout_idx [] acc = acc"
| "rollout_loop rollout_idx (rollout # rest) acc =
     rollout_loop (Suc rollout_idx) rest
       (timestep_loop rollout_idx 0 (step_observations rollout) acc)"

definition frames_from_rollouts :: "'o rollout list \<Rightarrow> 'o frames" where
  "frames_from_rollouts rollouts = rollout_loop 0 rollouts ([], [], [])"



text \<open>A closed form of the loops: the frames as one list of triples.\<close>

fun frame_triples :: "nat \<Rightarrow> 'o rollout list \<Rightarrow> (nat \<times> nat \<times> 'o) list" where
  "frame_triples i [] = []"
| "frame_triples i (rollout # rest) =
     map (\<lambda>(t, obs). (i, t, obs)) (enumerate 0 (step_observations rollout))
       @ frame_triples (Suc i) rest"

text \<open>Concrete rollouts used to evaluate the definitions.\<close>

definition rollout_A :: "nat rollout" where
  "rollout_A = \<lparr>step_observations = [10, 11], trailing_observation = None,
     total_reward = 1, total_steps = 2, end_time = 5\<rparr>"

definition rollout_B :: "nat rollout" where
  "rollout_B = \<lparr>step_observations = [20, 21], trailing_observation = Some 22,
     total_reward = 2, total_steps = 2, end_time = 3\<rparr>"

definition rollout_C :: "nat rollout" where
  "rollout_C = \<lparr>step_observations = [20, 21, 22], trailing_observation = None,
     total_reward = 2, total_steps = 3, end_time = 3\<rparr>"

section \<open>The feed-forward actor-critic model\<close>

text \<open>
  \<^verbatim>\<open>FeedforwardAC\<close> (feedforward.py, lines 14-78). The collaborators handed to the
  constructor are fields of the record: \<open>to_vecs\<close> is \<^verbatim>\<open>obs_vectorizer.to_vecs\<close> and
  \<open>sample\<close> is \<^verbatim>\<open>action_dist.sample\<close> (its randomness is not modelled). A graph node such
  as \<^verbatim>\<open>actor_out\<close> is the function that \<^verbatim>\<open>session.run\<close> computes from the value fed to
  \<^verbatim>\<open>obs_ph\<close>: a batch of parameter vectors for the actor, one scalar per batch element
  for the critic. \<^verbatim>\<open>FeedforwardAC.__init__\<close> leaves both nodes \<^verbatim>\<open>None\<close>; a subclass such as
  \<^verbatim>\<open>MLP\<close> sets them. The type \<open>'f\<close> is the type of the tensor entries (32-bit floats in
  the source); nothing is assumed of it.
\<close>

record ('o, 'v, 'f, 'a) feedforward_ac =
  to_vecs :: "'o list \<Rightarrow> 'v"
  sample :: "'f list list \<Rightarrow> 'a list"
  actor_out :: "('v \<Rightarrow> 'f list list) option"
  critic_out :: "('v \<Rightarrow> 'f list) option"

record ('f, 'a, 's) policy_output =
  action_params :: "'f list list"
  actions :: "'a list"
  states :: "'s option"
  values_out :: "'f list"

text \<open>
  \<^verbatim>\<open>scale_outputs\<close>: \<^verbatim>\<open>self.critic_out *= scale\<close>, then \<^verbatim>\<open>self.actor_out *= scale\<close>. On a
  tensor the statement rebinds the attribute to the product node, which multiplies every
  entry by the factor; on \<^verbatim>\<open>None\<close> it raises \<^verbatim>\<open>TypeError\<close>. The multiplication of the
  tensor backend is the parameter \<open>mul\<close>: it rounds, so no law of arithmetic is assumed of
  it. The result of a call that raises is the exception alone: the object it
  leaves behind (with \<^verbatim>\<open>critic_out\<close> already scaled when only \<^verbatim>\<open>actor_out\<close> is \<^verbatim>\<open>None\<close>) is
  not part of the model.
\<close>

definition scale_outputs ::
  "('f \<Rightarrow> 'f \<Rightarrow> 'f) \<Rightarrow> 'f \<Rightarrow> ('o, 'v, 'f, 'a) feedforward_ac
     \<Rightarrow> error + ('o, 'v, 'f, 'a) feedforward_ac" where
  "scale_outputs mul scale m =
     (case critic_out m of
        None \<Rightarrow> Inl TypeError
      | Some critic \<Rightarrow>
          (case actor_out m of
             None \<Rightarrow> Inl TypeError
           | Some actor \<Rightarrow>
               Inr (m\<lparr>critic_out := Some (\<lambda>v. map (\<lambda>x. mul x scale) (critic v)),
                      actor_out := Some (\<lambda>v. map (map (\<lambda>x. mul x scale)) (actor v))\<rparr>)))"

text \<open>Two calls of \<^verbatim>\<open>scale_outputs\<close>, one after the other.\<close>

definition scale_twice ::
  "('f \<Rightarrow> 'f \<Rightarrow> 'f) \<Rightarrow> 'f \<Rightarrow> 'f \<Rightarrow> ('o, 'v, 'f, 'a) feedforward_ac
     \<Rightarrow> error + ('o, 'v, 'f, 'a) feedforward_ac" where
  "scale_twice mul s1 s2 m =
     (case scale_outputs mul s1 m of Inl e \<Rightarrow> Inl e | Inr m' \<Rightarrow> scale_outputs mul s2 m')"

definition stateful :: "('o, 'v, 'f, 'a) feedforward_ac \<Rightarrow> bool" where
  "stateful m = False"

definition start_state :: "('o, 'v, 'f, 'a) feedforward_ac \<Rightarrow> int \<Rightarrow> 's option" where
  "start_state m batch_size = None"

text \<open>
  \<^verbatim>\<open>step\<close>: one \<^verbatim>\<open>session.run\<close> of both nodes on the vectorised observations. Fetching a
  node that is \<^verbatim>\<open>None\<close> raises \<^verbatim>\<open>TypeError\<close>. The argument \<open>sts\<close> is ignored, as in the source.
\<close>

definition step ::
  "('o, 'v, 'f, 'a) feedforward_ac \<Rightarrow> 'o list \<Rightarrow> 's option \<Rightarrow> error + ('f, 'a, 's) policy_output" where
  "step m observations sts =
     (case actor_out m of
        None \<Rightarrow> Inl TypeError
      | Some actor \<Rightarrow>
          (case critic_out m of
             None \<Rightarrow> Inl TypeError
           | Some critic \<Rightarrow>
               (let feed = to_vecs m observations;
                    act = actor feed;
                    val = critic feed
                in Inr \<lparr>action_params = act, actions = sample m act,
                        states = None, values_out = val\<rparr>)))"









text \<open>
  The frame sets the claims speak of. \<open>all_frames\<close> has one pair for every entry of
  \<open>step_observations\<close>; \<open>trimmed_frames\<close> follows the specification's words: one pair for
  every observation of a rollout, except the last one when \<open>trunc_end\<close> is set.
\<close>

definition all_frames :: "'o rollout list \<Rightarrow> (nat \<times> nat) set" where
  "all_frames rollouts =
     {(r, t). r < length rollouts \<and> t < length (step_observations (rollouts ! r))}"


text \<open>A concrete model: two parameters per action, the observation itself as value.\<close>

definition model_M :: "(nat, nat list, real, nat) feedforward_ac" where
  "model_M = \<lparr>to_vecs = (\<lambda>obs. obs),
     sample = (\<lambda>ps. map (\<lambda>p. length p) ps),
     actor_out = Some (\<lambda>v. map (\<lambda>x. [real x, 1]) v),
     critic_out = Some (\<lambda>v. map (\<lambda>x. real x + 1) v)\<rparr>"

section \<open>Episode logs\<close>

text \<open>
  A log is a CSV file: the header line \<^verbatim>\<open>r,l,t\<close>, then one line per episode. A line of
  the file is either text or a record as \<^verbatim>\<open>DataFrame.to_csv\<close> renders it; how the numbers
  are printed is not modelled. A file of zero bytes has no line.
\<close>

record entry =
  col_r :: real
  col_l :: int
  col_t :: real

datatype line = Text string | Row entry

fun join :: "string \<Rightarrow> string list \<Rightarrow> string" where
  "join sep [] = []"
| "join sep [x] = x"
| "join sep (x # y # ys) = x @ sep @ join sep (y # ys)"

fun row_of :: "line \<Rightarrow> entry option" where
  "row_of (Row e) = Some e"
| "row_of (Text s) = None"

text \<open>
  \<^verbatim>\<open>pandas.read_csv\<close>, an external library, on the files the claims are about: a file
  of zero bytes raises \<^verbatim>\<open>EmptyDataError\<close> (there is no header to parse); a header
  \<^verbatim>\<open>r,l,t\<close> followed by records gives the frame of these records. What pandas does with
  any other content is not modelled and is reported as \<open>MalformedLog\<close>.
\<close>

fun read_csv :: "line list \<Rightarrow> error + entry list" where
  "read_csv [] = Inl EmptyDataError"
| "read_csv (header # body) =
     (if header = Text ''r,l,t''
      then (case those (map row_of body) of
              None \<Rightarrow> Inl MalformedLog
            | Some rows \<Rightarrow> Inr rows)
      else Inl MalformedLog)"

text \<open>A well-formed log that exists: the header, then records only.\<close>

definition valid_log :: "line list \<Rightarrow> bool" where
  "valid_log f = (case f of [] \<Rightarrow> False | header # body \<Rightarrow>
     header = Text ''r,l,t'' \<and> list_all (\<lambda>x. row_of x \<noteq> None) body)"

text \<open>
  \<^verbatim>\<open>EpisodeLogger\<close> (logger.py). \<open>out_file\<close> is the content of the file behind the open
  handle; every write appends to it.
\<close>

record episode_logger =
  start_time :: real
  columns :: "string list"
  out_file :: "line list"

definition write_header :: "episode_logger \<Rightarrow> episode_logger" where
  "write_header lg = lg\<lparr>out_file := out_file lg @ [Text (join '','' (columns lg))]\<rparr>"

text \<open>
  \<^verbatim>\<open>EpisodeLogger.__init__\<close> (lines 19-30). \<open>file\<close> is the content at \<^verbatim>\<open>log_path\<close>, or
  \<open>None\<close> when \<^verbatim>\<open>os.path.isfile\<close> is false. \<open>now0\<close> and \<open>now1\<close> are the two readings of
  \<^verbatim>\<open>time.time()\<close>, on lines 20 and 26. \<^verbatim>\<open>max(contents['t'])\<close> runs only on a frame with
  at least one record. Mode \<^verbatim>\<open>'wt+'\<close> starts from an empty file.
\<close>

definition EpisodeLogger_init :: "line list option \<Rightarrow> real \<Rightarrow> real \<Rightarrow> error + episode_logger" where
  "EpisodeLogger_init file now0 now1 =
     (case file of
        Some content \<Rightarrow>
          (case read_csv content of
             Inl e \<Rightarrow> Inl e
           | Inr contents \<Rightarrow>
               Inr \<lparr>start_time =
                      (case map col_t contents of
                         [] \<Rightarrow> now0
                       | x # xs \<Rightarrow> now1 - fold max xs x),
                    columns = [''r'', ''l'', ''t''],
                    out_file = content\<rparr>)
      | None \<Rightarrow>
          Inr (write_header \<lparr>start_time = now0, columns = [''r'', ''l'', ''t''], out_file = []\<rparr>))"

text \<open>
  \<^verbatim>\<open>write_frame\<close> (lines 48-57): \<^verbatim>\<open>sort_values(by='t')\<close>, then the records are appended in
  the column order r, l, t. The order pandas gives to records of equal \<open>t\<close> is not
  specified (its default sort is not stable); \<open>sort_key\<close> fixes one, and no theorem below
  depends on which.
\<close>

definition write_frame :: "episode_logger \<Rightarrow> entry list \<Rightarrow> episode_logger" where
  "write_frame lg frame =
     (let new_frame = sort_key col_t frame
      in lg\<lparr>out_file := out_file lg @ map Row new_frame\<rparr>)"

text \<open>
  \<^verbatim>\<open>write_rollouts\<close> (lines 32-46). The dictionary of three parallel column lists is the
  list of its records.
\<close>

fun collect_data :: "episode_logger \<Rightarrow> 'o rollout list \<Rightarrow> entry list \<Rightarrow> entry list" where
  "collect_data lg [] data = data"
| "collect_data lg (rollout # rest) data =
     (if trunc_end rollout then collect_data lg rest data
      else collect_data lg rest
             (data @ [\<lparr>col_r = total_reward rollout, col_l = total_steps rollout,
                       col_t = end_time rollout - start_time lg\<rparr>]))"

definition write_rollouts :: "episode_logger \<Rightarrow> 'o rollout list \<Rightarrow> episode_logger" where
  "write_rollouts lg rollouts =
     (let data = collect_data lg rollouts []
      in if data = [] then lg else write_frame lg data)"

text \<open>The record the log should hold for a completed rollout.\<close>

definition entry_of :: "episode_logger \<Rightarrow> 'o rollout \<Rightarrow> entry" where
  "entry_of lg rollout = \<lparr>col_r = total_reward rollout, col_l = total_steps rollout,
     col_t = end_time rollout - start_time lg\<rparr>"

definition logger_L :: episode_logger where
  "logger_L = \<lparr>start_time = 1, columns = [''r'', ''l'', ''t''], out_file = [Text ''r,l,t'']\<rparr>"

section \<open>The logging environment wrapper\<close>

text \<open>
  \<^verbatim>\<open>LoggedEnv\<close> (logs.py). \<open>env\<close> is the state of the wrapped environment, \<open>log_file\<close> the
  content of the file behind the descriptor. The advisory lock of \<^verbatim>\<open>_set_locked\<close> changes
  no data of a single process and is left out.
\<close>

record 'e logged_env =
  env :: 'e
  env_start_time :: real
  env_columns :: "string list"
  use_locking :: bool
  log_file :: "line list"
  cur_timesteps :: int
  cur_reward :: real

text \<open>
  \<^verbatim>\<open>_initialize_file\<close> (lines 87-102), after \<^verbatim>\<open>os.open\<close> with \<^verbatim>\<open>O_CREAT\<close> has made an absent
  file an empty one. \<^verbatim>\<open>self._file.tell() > 0\<close> at the end of the file holds exactly when
  the file has content.
\<close>

definition initialize_file :: "real \<Rightarrow> 'e logged_env \<Rightarrow> error + 'e logged_env" where
  "initialize_file now1 le =
     (if log_file le \<noteq> []
      then (case read_csv (log_file le) of
              Inl e \<Rightarrow> Inl e
            | Inr contents \<Rightarrow>
                (case map col_t contents of
                   [] \<Rightarrow> Inr le
                 | x # xs \<Rightarrow> Inr (le\<lparr>env_start_time := now1 - fold max xs x\<rparr>)))
      else Inr (le\<lparr>log_file := log_file le @ [Text (join '','' (env_columns le))]\<rparr>))"

definition LoggedEnv_init ::
  "'e \<Rightarrow> line list option \<Rightarrow> bool \<Rightarrow> real \<Rightarrow> real \<Rightarrow> error + 'e logged_env" where
  "LoggedEnv_init e file locking now0 now1 =
     initialize_file now1
       \<lparr>env = e, env_start_time = now0, env_columns = [''r'', ''l'', ''t''],
        use_locking = locking,
        log_file = (case file of None \<Rightarrow> [] | Some content \<Rightarrow> content),
        cur_timesteps = 0, cur_reward = 0\<rparr>"

text \<open>
  \<^verbatim>\<open>_write_entry\<close> (lines 69-85): one record, written at the end of the file. \<open>now\<close> is
  the reading of \<^verbatim>\<open>time.time()\<close>.
\<close>

definition write_entry :: "real \<Rightarrow> 'e logged_env \<Rightarrow> 'e logged_env" where
  "write_entry now le =
     le\<lparr>log_file := log_file le @
          [Row \<lparr>col_r = cur_reward le, col_l = cur_timesteps le,
                col_t = now - env_start_time le\<rparr>]\<rparr>"

text \<open>
  \<^verbatim>\<open>_step\<close> (lines 46-54). \<open>env_step\<close> is \<^verbatim>\<open>self.env.step\<close>: from the state of the wrapped
  environment and an action it gives the observation, the reward, the done flag, the
  info and the next state.
\<close>

definition LoggedEnv_step ::
  "('e \<Rightarrow> 'act \<Rightarrow> ('obs \<times> real \<times> bool \<times> 'info) \<times> 'e) \<Rightarrow> real \<Rightarrow> 'act \<Rightarrow> 'e logged_env
     \<Rightarrow> ('obs \<times> real \<times> bool \<times> 'info) \<times> 'e logged_env" where
  "LoggedEnv_step env_step now action le =
     (case env_step (env le) action of
        ((obs, rew, done, info), e') \<Rightarrow>
          (let le1 = le\<lparr>env := e', cur_reward := cur_reward le + rew,
                        cur_timesteps := cur_timesteps le + 1\<rparr>;
               le2 = (if done
                      then (write_entry now le1)\<lparr>cur_timesteps := 0, cur_reward := 0\<rparr>
                      else le1)
           in ((obs, rew, done, info), le2)))"

text \<open>
  A run of \<^verbatim>\<open>_step\<close> calls, each with its clock reading and action; the result is the
  trace of rewards and done flags the environment gave, and the final wrapper.
\<close>

fun run_steps ::
  "('e \<Rightarrow> 'act \<Rightarrow> ('obs \<times> real \<times> bool \<times> 'info) \<times> 'e) \<Rightarrow> (real \<times> 'act) list \<Rightarrow> 'e logged_env
     \<Rightarrow> (real \<times> bool) list \<times> 'e logged_env" where
  "run_steps env_step [] le = ([], le)"
| "run_steps env_step ((now, action) # rest) le =
     (case LoggedEnv_step env_step now action le of
        ((obs, rew, done, info), le') \<Rightarrow>
          (case run_steps env_step rest le' of
             (trace, le'') \<Rightarrow> ((rew, done) # trace, le'')))"

text \<open>
  What the claim calls the steps since the last episode end, and the completed episodes,
  read off a trace. \<open>acc\<close> holds the steps of the episode that is open when the trace
  begins. \<open>since_last_done\<close> is the longest suffix of the trace without a done flag.
\<close>

fun open_episode :: "(real \<times> bool) list \<Rightarrow> (real \<times> bool) list \<Rightarrow> (real \<times> bool) list" where
  "open_episode acc [] = acc"
| "open_episode acc ((rew, done) # rest) =
     (if done then open_episode [] rest else open_episode (acc @ [(rew, done)]) rest)"

fun episodes :: "(real \<times> bool) list \<Rightarrow> (real \<times> bool) list \<Rightarrow> (real \<times> bool) list list" where
  "episodes acc [] = []"
| "episodes acc ((rew, done) # rest) =
     (if done then (acc @ [(rew, done)]) # episodes [] rest
      else episodes (acc @ [(rew, done)]) rest)"

definition since_last_done :: "(real \<times> bool) list \<Rightarrow> (real \<times> bool) list" where
  "since_last_done trace = rev (takeWhile (\<lambda>step. \<not> snd step) (rev trace))"

definition episode_totals :: "(real \<times> bool) list \<Rightarrow> real \<times> int" where
  "episode_totals ep = (sum_list (map fst ep), int (length ep))"

definition row_totals :: "line \<Rightarrow> (real \<times> int) option" where
  "row_totals x = (case x of Row e \<Rightarrow> Some (col_r e, col_l e) | Text s \<Rightarrow> None)"

text \<open>A concrete environment: the state counts steps, every third step ends an episode.\<close>

definition env_E :: "nat \<Rightarrow> unit \<Rightarrow> (nat \<times> real \<times> bool \<times> unit) \<times> nat" where
  "env_E s a = ((s, real s + 1, s mod 3 = 2, ()), Suc s)"

definition fresh_env :: "nat logged_env" where
  "fresh_env = \<lparr>env = 0, env_start_time = 100, env_columns = [''r'', ''l'', ''t''],
     use_locking = False, log_file = [Text ''r,l,t''], cur_timesteps = 0, cur_reward = 0\<rparr>"

section \<open>Properties of the flattening\<close>

lemma timestep_loop_closed:
  "timestep_loop i t obs (a, b, c) =
     (a @ obs, b @ replicate (length obs) i, c @ [t ..< t + length obs])"
proof (induction obs arbitrary: t a b c)
  case Nil
  show ?case by simp
next
  case (Cons x xs)
  have "[t ..< t + length (x # xs)] = t # [Suc t ..< Suc t + length xs]"
    by (simp add: upt_conv_Cons del: upt_Suc)
  then show ?case
    by (simp add: Cons.IH replicate_app_Cons_same del: upt_Suc)
qed

lemma triples_obs:
  "map (\<lambda>(r, t, obs). obs) (map (\<lambda>(t, obs). (i, t, obs)) (enumerate n xs)) = xs"
  by (induction xs arbitrary: n) simp_all

lemma triples_rollout:
  "map (\<lambda>(r, t, obs). r) (map (\<lambda>(t, obs). (i, t, obs)) (enumerate n xs)) = replicate (length xs) i"
  by (induction xs arbitrary: n) simp_all

lemma triples_timestep:
  "map (\<lambda>(r, t, obs). t) (map (\<lambda>(t, obs). (i, t, obs)) (enumerate n xs)) = [n ..< n + length xs]"
  by (simp add: comp_def case_prod_unfold)

lemma rollout_loop_closed:
  "rollout_loop i rs (a, b, c) =
     (a @ map (\<lambda>(r, t, obs). obs) (frame_triples i rs),
      b @ map (\<lambda>(r, t, obs). r) (frame_triples i rs),
      c @ map (\<lambda>(r, t, obs). t) (frame_triples i rs))"
proof (induction rs arbitrary: i a b c)
  case Nil
  show ?case by simp
next
  case (Cons x xs)
  have "rollout_loop i (x # xs) (a, b, c) =
      rollout_loop (Suc i) xs (a @ step_observations x,
        b @ replicate (length (step_observations x)) i,
        c @ [0 ..< length (step_observations x)])"
    by (simp add: timestep_loop_closed)
  also have "\<dots> = (a @ map (\<lambda>(r, t, obs). obs) (frame_triples i (x # xs)),
      b @ map (\<lambda>(r, t, obs). r) (frame_triples i (x # xs)),
      c @ map (\<lambda>(r, t, obs). t) (frame_triples i (x # xs)))"
    unfolding Cons.IH frame_triples.simps map_append triples_obs triples_rollout triples_timestep
    by simp
  finally show ?case .
qed

lemma frames_from_rollouts_closed:
  "frames_from_rollouts rs =
     (map (\<lambda>(r, t, obs). obs) (frame_triples 0 rs),
      map (\<lambda>(r, t, obs). r) (frame_triples 0 rs),
      map (\<lambda>(r, t, obs). t) (frame_triples 0 rs))"
  by (simp add: frames_from_rollouts_def rollout_loop_closed)

lemma frame_triples_sound:
  "(r, t, obs) \<in> set (frame_triples i rs) \<Longrightarrow>
     i \<le> r \<and> r - i < length rs \<and> t < length (step_observations (rs ! (r - i)))
       \<and> obs = step_observations (rs ! (r - i)) ! t"
proof (induction rs arbitrary: i)
  case Nil
  then show ?case by simp
next
  case (Cons x xs)
  from Cons.prems consider
      (here) "(r, t, obs) \<in> set (map (\<lambda>(t, obs). (i, t, obs)) (enumerate 0 (step_observations x)))"
    | (later) "(r, t, obs) \<in> set (frame_triples (Suc i) xs)"
    by auto
  then show ?case
  proof cases
    case here
    then have "r = i" and "(t, obs) \<in> set (enumerate 0 (step_observations x))"
      by auto
    then show ?thesis
      by (auto simp: in_set_enumerate_eq)
  next
    case later
    from Cons.IH [OF later] have h: "Suc i \<le> r" "r - Suc i < length xs"
      "t < length (step_observations (xs ! (r - Suc i)))"
      "obs = step_observations (xs ! (r - Suc i)) ! t"
      by simp_all
    from h(1) have "r - i = Suc (r - Suc i)" by simp
    with h show ?thesis by simp
  qed
qed

lemma length_frame_triples:
  "length (frame_triples i rs) = sum_list (map (\<lambda>r. length (step_observations r)) rs)"
  by (induction rs arbitrary: i) simp_all

lemma zip_of_maps: "zip (map f xs) (map g xs) = map (\<lambda>x. (f x, g x)) xs"
  by (induction xs) simp_all

lemma frame_pairs_zip:
  "zip (map (\<lambda>(r, t, obs). r) (frame_triples i rs)) (map (\<lambda>(r, t, obs). t) (frame_triples i rs))
     = map (\<lambda>(r, t, obs). (r, t)) (frame_triples i rs)"
  by (simp add: zip_of_maps case_prod_unfold)

lemma frame_pairs_here:
  "map (\<lambda>(r, t, obs). (r, t)) (map (\<lambda>(t, obs). (i, t, obs)) (enumerate n xs))
     = map (Pair i) [n ..< n + length xs]"
  by (induction xs arbitrary: n) (simp_all add: upt_conv_Cons del: upt_Suc)

lemma frame_pairs_set:
  "set (map (\<lambda>(r, t, obs). (r, t)) (frame_triples i rs)) =
     {(r, t). i \<le> r \<and> r - i < length rs \<and> t < length (step_observations (rs ! (r - i)))}"
proof (induction rs arbitrary: i)
  case Nil
  show ?case by simp
next
  case (Cons x xs)
  have split: "\<And>r. i \<le> r \<longleftrightarrow> r = i \<or> Suc i \<le> r" by auto
  have shift: "\<And>r. Suc i \<le> r \<Longrightarrow> r - i = Suc (r - Suc i)" by simp
  show ?case
    unfolding frame_triples.simps map_append set_append frame_pairs_here Cons.IH
    by (auto simp: shift nth_Cons' split: if_splits)
qed

lemma frame_pairs_distinct:
  "distinct (map (\<lambda>(r, t, obs). (r, t)) (frame_triples i rs))"
proof (induction rs arbitrary: i)
  case Nil
  show ?case by simp
next
  case (Cons x xs)
  have d1: "distinct (map (Pair i) [0 ..< 0 + length (step_observations x)])"
    by (simp add: distinct_map inj_on_def)
  have disj: "set (map (Pair i) [0 ..< 0 + length (step_observations x)])
      \<inter> set (map (\<lambda>(r, t, obs). (r, t)) (frame_triples (Suc i) xs)) = {}"
    unfolding frame_pairs_set by auto
  show ?case
    unfolding frame_triples.simps map_append frame_pairs_here
    using d1 disj Cons.IH [of "Suc i"] by (simp only: distinct_append)
qed

lemma all_frames_pairs:
  "set (map (\<lambda>(r, t, obs). (r, t)) (frame_triples 0 rs)) = all_frames rs"
  by (simp only: frame_pairs_set all_frames_def) simp










text \<open>
  Claim C5. Flattening is a faithful round trip: the three result lists have one length;
  at every position the two indices point into the input, and the observation stored
  there is the flattened one; and every pair of a rollout and one of its timesteps
  occurs at exactly one position, so grouping the frames by their index pairs gives back
  every observation of every rollout.
\<close>

theorem frames_round_trip:
  assumes "frames_from_rollouts rollouts = (observations, rollout_indices, timestep_indices)"
  shows "length rollout_indices = length observations
    \<and> length timestep_indices = length observations
    \<and> (\<forall>i < length observations.
          rollout_indices ! i < length rollouts
        \<and> timestep_indices ! i < length (step_observations (rollouts ! (rollout_indices ! i)))
        \<and> observations ! i =
            step_observations (rollouts ! (rollout_indices ! i)) ! (timestep_indices ! i))
    \<and> distinct (zip rollout_indices timestep_indices)
    \<and> set (zip rollout_indices timestep_indices) = all_frames rollouts"
proof -
  let ?tr = "frame_triples 0 rollouts"
  from assms have o: "observations = map (\<lambda>(r, t, obs). obs) ?tr"
    and r: "rollout_indices = map (\<lambda>(r, t, obs). r) ?tr"
    and t: "timestep_indices = map (\<lambda>(r, t, obs). t) ?tr"
    by (simp_all add: frames_from_rollouts_closed)
  have pointwise: "rollout_indices ! i < length rollouts
        \<and> timestep_indices ! i < length (step_observations (rollouts ! (rollout_indices ! i)))
        \<and> observations ! i =
            step_observations (rollouts ! (rollout_indices ! i)) ! (timestep_indices ! i)"
    if "i < length observations" for i
  proof -
    from that have len: "i < length ?tr" by (simp add: o)
    obtain a b c where abc: "?tr ! i = (a, b, c)" by (cases "?tr ! i")
    with len have "(a, b, c) \<in> set ?tr" by (metis nth_mem)
    from frame_triples_sound [OF this] abc len show ?thesis
      by (simp add: o r t)
  qed
  have "zip rollout_indices timestep_indices = map (\<lambda>(r, t, obs). (r, t)) ?tr"
    by (simp only: r t frame_pairs_zip)
  then have "distinct (zip rollout_indices timestep_indices)"
    and "set (zip rollout_indices timestep_indices) = all_frames rollouts"
    by (simp_all only: frame_pairs_distinct all_frames_pairs)
  with pointwise show ?thesis by (simp add: o r t)
qed

theorem frames_round_trip_witness:
  "frames_from_rollouts [rollout_A, rollout_C] =
      ([10, 11, 20, 21, 22], [0, 0, 1, 1, 1], [0, 1, 0, 1, 2])
   \<and> [10, 11, 20, 21, 22] ! 4 = step_observations ([rollout_A, rollout_C] ! ([0, 0, 1, 1, 1] ! 4)) ! ([0, 1, 0, 1, 2] ! 4)
   \<and> set (zip [0, 0, 1, 1, 1] [0, 1, 0, 1, 2]) = all_frames [rollout_A, rollout_C]"
proof -
  have e: "frames_from_rollouts [rollout_A, rollout_C] =
      ([10, 11, 20, 21, 22], [0, 0, 1, 1, 1], [0, 1, 0, 1, 2])"
    by (simp add: frames_from_rollouts_def rollout_A_def rollout_C_def)
  from frames_round_trip [OF e] e show ?thesis
    by (simp add: rollout_C_def)
qed



























lemma scale_outputs_fields:
  assumes "actor_out m = Some actor" and "critic_out m = Some critic"
  shows "scale_outputs mul s m =
     Inr (m\<lparr>critic_out := Some (\<lambda>v. map (\<lambda>x. mul x s) (critic v)),
            actor_out := Some (\<lambda>v. map (map (\<lambda>x. mul x s)) (actor v))\<rparr>)"
  using assms by (simp add: scale_outputs_def)

lemma scale_twice_fields:
  assumes "actor_out m = Some actor" and "critic_out m = Some critic"
  shows "scale_twice mul s1 s2 m =
     Inr (m\<lparr>critic_out := Some (\<lambda>v. map (\<lambda>x. mul (mul x s1) s2) (critic v)),
            actor_out := Some (\<lambda>v. map (map (\<lambda>x. mul (mul x s1) s2)) (actor v))\<rparr>)"
  using assms by (simp add: scale_twice_def scale_outputs_def comp_def)

lemma scale_twice_unset:
  "actor_out m = None \<or> critic_out m = None \<Longrightarrow>
     scale_twice mul s1 s2 m = Inl TypeError \<and> scale_outputs mul s m = Inl TypeError"
  by (auto simp: scale_twice_def scale_outputs_def split: option.splits)

lemma scale_idempotent_iff:
  "(\<forall>m :: ('o, 'v, 'f, 'a) feedforward_ac. scale_twice mul s s m = scale_outputs mul s m)
     \<longleftrightarrow> (\<forall>x. mul (mul x s) s = mul x s)"
proof
  assume all: "\<forall>m :: ('o, 'v, 'f, 'a) feedforward_ac. scale_twice mul s s m = scale_outputs mul s m"
  show "\<forall>x. mul (mul x s) s = mul x s"
  proof
    fix x
    define m0 :: "('o, 'v, 'f, 'a) feedforward_ac" where
      "m0 = \<lparr>to_vecs = (\<lambda>obs. undefined), sample = (\<lambda>ps. []),
             actor_out = Some (\<lambda>v. []), critic_out = Some (\<lambda>v. [x])\<rparr>"
    have a: "actor_out m0 = Some (\<lambda>v. [])" and c: "critic_out m0 = Some (\<lambda>v. [x])"
      by (simp_all add: m0_def)
    from all have "scale_twice mul s s m0 = scale_outputs mul s m0" by blast
    then have "critic_out (projr (scale_twice mul s s m0))
        = critic_out (projr (scale_outputs mul s m0))"
      by simp
    then have "(\<lambda>v :: 'v. [mul (mul x s) s]) = (\<lambda>v. [mul x s])"
      by (simp add: scale_twice_fields [OF a c] scale_outputs_fields [OF a c])
    then show "mul (mul x s) s = mul x s" by (meson list.inject)
  qed
next
  assume idem: "\<forall>x. mul (mul x s) s = mul x s"
  show "\<forall>m :: ('o, 'v, 'f, 'a) feedforward_ac. scale_twice mul s s m = scale_outputs mul s m"
  proof
    fix m :: "('o, 'v, 'f, 'a) feedforward_ac"
    show "scale_twice mul s s m = scale_outputs mul s m"
    proof (cases "actor_out m = None \<or> critic_out m = None")
      case True
      from scale_twice_unset [OF this] show ?thesis by simp
    next
      case False
      then obtain actor critic where ac: "actor_out m = Some actor" "critic_out m = Some critic"
        by auto
      show ?thesis
        by (simp add: scale_twice_fields [OF ac] scale_outputs_fields [OF ac] idem)
    qed
  qed
qed

text \<open>
  Claim C4, as amended. On a model whose two output nodes are set (every \<^verbatim>\<open>step\<close> on it
  returns), \<^verbatim>\<open>scale_outputs(s)\<close> succeeds, and every later \<^verbatim>\<open>step\<close> on the same input
  returns the action parameters and the values with every entry multiplied by \<open>s\<close>. A
  second call multiplies the scaled outputs again: after the factors \<open>s1\<close> and \<open>s2\<close> every
  entry \<open>x\<close> has become \<open>(x * s1) * s2\<close>. Hence scaling twice by \<open>s\<close> is the same as
  scaling once, for every model, exactly when \<open>(x * s) * s = x * s\<close> for every entry \<open>x\<close>;
  this holds for the factor 1 and also for the factor 0, so not for the factor 1 only.
\<close>

theorem scale_outputs_multiplies:
  "(step (m :: ('o, 'v, 'f, 'a) feedforward_ac) observations sts = Inr out \<longrightarrow>
      (\<exists>m' out'. scale_outputs mul s m = Inr m'
         \<and> step m' observations sts = Inr out'
         \<and> action_params out' = map (map (\<lambda>x. mul x s)) (action_params out)
         \<and> values_out out' = map (\<lambda>x. mul x s) (values_out out)))
   \<and> (step m observations sts = Inr out \<longrightarrow>
      (\<exists>m' out'. scale_twice mul s1 s2 m = Inr m'
         \<and> step m' observations sts = Inr out'
         \<and> action_params out' = map (map (\<lambda>x. mul (mul x s1) s2)) (action_params out)
         \<and> values_out out' = map (\<lambda>x. mul (mul x s1) s2) (values_out out)))
   \<and> ((\<forall>m' :: ('o, 'v, 'f, 'a) feedforward_ac. scale_twice mul s s m' = scale_outputs mul s m')
        \<longleftrightarrow> (\<forall>x. mul (mul x s) s = mul x s))"
proof (intro conjI impI)
  assume st: "step m observations sts = Inr out"
  then obtain actor critic where ac: "actor_out m = Some actor" "critic_out m = Some critic"
    by (auto simp: step_def split: option.splits)
  with st have out: "action_params out = actor (to_vecs m observations)"
    "values_out out = critic (to_vecs m observations)"
    by (auto simp: step_def Let_def)
  show "\<exists>m' out'. scale_outputs mul s m = Inr m'
         \<and> step m' observations sts = Inr out'
         \<and> action_params out' = map (map (\<lambda>x. mul x s)) (action_params out)
         \<and> values_out out' = map (\<lambda>x. mul x s) (values_out out)"
    by (simp add: scale_outputs_fields [OF ac] step_def Let_def out)
next
  assume st: "step m observations sts = Inr out"
  then obtain actor critic where ac: "actor_out m = Some actor" "critic_out m = Some critic"
    by (auto simp: step_def split: option.splits)
  with st have out: "action_params out = actor (to_vecs m observations)"
    "values_out out = critic (to_vecs m observations)"
    by (auto simp: step_def Let_def)
  show "\<exists>m' out'. scale_twice mul s1 s2 m = Inr m'
         \<and> step m' observations sts = Inr out'
         \<and> action_params out' = map (map (\<lambda>x. mul (mul x s1) s2)) (action_params out)
         \<and> values_out out' = map (\<lambda>x. mul (mul x s1) s2) (values_out out)"
    by (simp add: scale_twice_fields [OF ac] step_def Let_def out)
next
  show "(\<forall>m' :: ('o, 'v, 'f, 'a) feedforward_ac. scale_twice mul s s m' = scale_outputs mul s m')
        \<longleftrightarrow> (\<forall>x. mul (mul x s) s = mul x s)"
    by (rule scale_idempotent_iff)
qed

lemma step_model_M:
  "step model_M [3, 4] (None :: unit option) =
     Inr \<lparr>action_params = [[3, 1], [4, 1]], actions = [2, 2], states = None,
          values_out = [4, 5]\<rparr>"
  by (simp add: step_def model_M_def)

text \<open>
  Claim C4, as amended, at the concrete model and factor 2: the same input gives doubled
  action parameters and doubled values.
\<close>

theorem scale_outputs_multiplies_witness:
  "step model_M [3, 4] (None :: unit option) =
     Inr \<lparr>action_params = [[3, 1], [4, 1]], actions = [2, 2], states = None,
          values_out = [4, 5]\<rparr>
   \<and> (\<exists>m' out'. scale_outputs (*) 2 model_M = Inr m'
         \<and> step m' [3, 4] (None :: unit option) = Inr out'
         \<and> action_params out' = [[6, 2], [8, 2]]
         \<and> values_out out' = [8, 10])"
  using scale_outputs_multiplies [of model_M "[3, 4]" "None :: unit option"
      "\<lparr>action_params = [[3, 1], [4, 1]], actions = [2, 2], states = None, values_out = [4, 5]\<rparr>"
      "(*)" 2]
    step_model_M
  by simp

text \<open>
  Claim C4 as stated fails at the factor 0, which is not 1: an entry multiplied by 0 and
  by 0 again is the entry multiplied by 0 once, so scaling twice by 0 is the same as
  scaling once by 0, on every model.
\<close>

theorem scale_zero_idempotent_counterexample:
  "(\<forall>m :: (nat, nat list, real, nat) feedforward_ac.
      scale_twice (*) 0 0 m = scale_outputs (*) 0 m)
   \<and> (0 :: real) \<noteq> 1"
proof -
  have idem: "\<forall>x :: real. x * 0 * 0 = x * 0" by simp
  have "\<forall>m :: (nat, nat list, real, nat) feedforward_ac.
      scale_twice (*) 0 0 m = scale_outputs (*) 0 m"
    by (rule scale_idempotent_iff [THEN iffD2]) (rule idem)
  then show ?thesis by simp
qed

text \<open>
  Claim C7. The feed-forward model is stateless: \<open>stateful\<close> is false, \<open>start_state\<close> is
  \<^verbatim>\<open>None\<close> for every batch size, every \<^verbatim>\<open>step\<close> that returns has \<^verbatim>\<open>None\<close> in its \<open>states\<close>
  field, and \<^verbatim>\<open>step\<close> does return whenever the two output nodes are set.
\<close>

theorem feedforward_stateless:
  "stateful m = False
   \<and> start_state m n = (None :: 's option)
   \<and> (\<forall>out. step m observations (sts :: 's option) = Inr out \<longrightarrow> states out = None)
   \<and> (actor_out m \<noteq> None \<and> critic_out m \<noteq> None \<longrightarrow>
        (\<exists>out. step m observations sts = Inr out \<and> states out = None))"
  by (auto simp: stateful_def start_state_def step_def Let_def split: option.splits)

theorem feedforward_stateless_witness:
  "stateful model_M = False
   \<and> start_state model_M 7 = (None :: unit option)
   \<and> (\<exists>out. step model_M [3, 4] (None :: unit option) = Inr out \<and> states out = None)"
proof -
  have "actor_out model_M \<noteq> None \<and> critic_out model_M \<noteq> None"
    by (simp add: model_M_def)
  with feedforward_stateless [of model_M 7 "[3, 4]" "None :: unit option"]
  show ?thesis by simp
qed

lemma collect_data_closed:
  "collect_data lg rollouts data =
     data @ map (entry_of lg) (filter (\<lambda>r. \<not> trunc_end r) rollouts)"
  by (induction rollouts arbitrary: data) (simp_all add: entry_of_def)

lemma write_rollouts_closed:
  "write_rollouts lg rollouts =
     (if filter (\<lambda>r. \<not> trunc_end r) rollouts = [] then lg
      else lg\<lparr>out_file := out_file lg @
             map Row (sort_key col_t (map (entry_of lg) (filter (\<lambda>r. \<not> trunc_end r) rollouts)))\<rparr>)"
  by (simp add: write_rollouts_def write_frame_def collect_data_closed Let_def)

text \<open>
  Claim C8. \<^verbatim>\<open>write_rollouts\<close> appends to the log exactly one record for every rollout
  whose \<open>trunc_end\<close> is false, holding its total reward, its total steps and its end
  time relative to the start time, and no record for a rollout whose \<open>trunc_end\<close> is
  true; when every rollout is truncated the logger and its file are unchanged.
\<close>

theorem write_rollouts_completed_only:
  "(\<exists>new. out_file (write_rollouts lg rollouts) = out_file lg @ map Row new
      \<and> mset new = mset (map (entry_of lg) (filter (\<lambda>r. \<not> trunc_end r) rollouts))
      \<and> length new = length (filter (\<lambda>r. \<not> trunc_end r) rollouts))
   \<and> ((\<forall>r \<in> set rollouts. trunc_end r) \<longrightarrow> write_rollouts lg rollouts = lg)"
proof (intro conjI impI)
  let ?done = "filter (\<lambda>r. \<not> trunc_end r) rollouts"
  let ?new = "sort_key col_t (map (entry_of lg) ?done)"
  have "out_file (write_rollouts lg rollouts) = out_file lg @ map Row ?new"
    by (simp add: write_rollouts_closed)
  moreover have "mset ?new = mset (map (entry_of lg) ?done)" by simp
  moreover have "length ?new = length ?done" by simp
  ultimately show "\<exists>new. out_file (write_rollouts lg rollouts) = out_file lg @ map Row new
      \<and> mset new = mset (map (entry_of lg) ?done) \<and> length new = length ?done"
    by blast
next
  assume "\<forall>r \<in> set rollouts. trunc_end r"
  then have "filter (\<lambda>r. \<not> trunc_end r) rollouts = []"
    by (simp add: filter_empty_conv)
  then show "write_rollouts lg rollouts = lg"
    by (simp add: write_rollouts_closed)
qed


text \<open>
  Claim C8 at concrete rollouts: of A (completed) and B (truncated) only A is logged, and
  B alone leaves the log as it was.
\<close>

theorem write_rollouts_completed_only_witness:
  "out_file (write_rollouts logger_L [rollout_A, rollout_B]) =
     [Text ''r,l,t'', Row \<lparr>col_r = 1, col_l = 2, col_t = 4\<rparr>]
   \<and> write_rollouts logger_L [rollout_B] = logger_L"
proof -
  have "\<forall>r \<in> set [rollout_B]. trunc_end r" by (simp add: rollout_B_def trunc_end_def)
  with write_rollouts_completed_only [of logger_L "[rollout_B]"]
  have "write_rollouts logger_L [rollout_B] = logger_L" by blast
  moreover have "out_file (write_rollouts logger_L [rollout_A, rollout_B]) =
     [Text ''r,l,t'', Row \<lparr>col_r = 1, col_l = 2, col_t = 4\<rparr>]"
    by (simp add: write_rollouts_closed rollout_A_def rollout_B_def trunc_end_def logger_L_def
        entry_of_def)
  ultimately show ?thesis by simp
qed






lemma header_text: "join '','' [''r'', ''l'', ''t''] = ''r,l,t''"
  by simp

lemma fold_max_Max: "fold max xs (x :: real) = Max (set (x # xs))"
  by (rule Max.set_eq_fold [symmetric])

lemma those_rows: "those (map (row_of \<circ> Row) es) = Some es"
  by (induction es) simp_all

lemma read_csv_valid: "read_csv (Text ''r,l,t'' # map Row es) = Inr es"
  by (simp add: those_rows)

lemma read_csv_rows: "read_csv (Text ''r,l,t'' # Row e # map Row es) = Inr (e # es)"
  using read_csv_valid [of "e # es"] by (simp only: list.map)

lemma EpisodeLogger_init_absent:
  "EpisodeLogger_init None now0 now1 =
     Inr \<lparr>start_time = now0, columns = [''r'', ''l'', ''t''], out_file = [Text ''r,l,t'']\<rparr>"
  by (simp add: EpisodeLogger_init_def write_header_def)

lemma EpisodeLogger_init_header_only:
  "EpisodeLogger_init (Some [Text ''r,l,t'']) now0 now1 =
     Inr \<lparr>start_time = now0, columns = [''r'', ''l'', ''t''], out_file = [Text ''r,l,t'']\<rparr>"
  by (simp add: EpisodeLogger_init_def)

lemma EpisodeLogger_init_rows:
  "EpisodeLogger_init (Some (Text ''r,l,t'' # map Row (e # es))) now0 now1 =
     Inr \<lparr>start_time = now1 - Max (col_t ` set (e # es)), columns = [''r'', ''l'', ''t''],
          out_file = Text ''r,l,t'' # map Row (e # es)\<rparr>"
  by (simp add: EpisodeLogger_init_def read_csv_rows fold_max_Max del: read_csv.simps)

lemma LoggedEnv_init_absent:
  "LoggedEnv_init e None locking now0 now1 =
     Inr \<lparr>env = e, env_start_time = now0, env_columns = [''r'', ''l'', ''t''],
          use_locking = locking, log_file = [Text ''r,l,t''], cur_timesteps = 0, cur_reward = 0\<rparr>"
  by (simp add: LoggedEnv_init_def initialize_file_def)

lemma LoggedEnv_init_empty:
  "LoggedEnv_init e (Some []) locking now0 now1 =
     Inr \<lparr>env = e, env_start_time = now0, env_columns = [''r'', ''l'', ''t''],
          use_locking = locking, log_file = [Text ''r,l,t''], cur_timesteps = 0, cur_reward = 0\<rparr>"
  by (simp add: LoggedEnv_init_def initialize_file_def)

lemma LoggedEnv_init_rows:
  "LoggedEnv_init e (Some (Text ''r,l,t'' # map Row (x # xs))) locking now0 now1 =
     Inr \<lparr>env = e, env_start_time = now1 - Max (col_t ` set (x # xs)),
          env_columns = [''r'', ''l'', ''t''], use_locking = locking,
          log_file = Text ''r,l,t'' # map Row (x # xs), cur_timesteps = 0, cur_reward = 0\<rparr>"
  by (simp add: LoggedEnv_init_def initialize_file_def read_csv_rows fold_max_Max
      del: read_csv.simps)

lemma those_valid:
  "list_all (\<lambda>x. row_of x \<noteq> None) body \<Longrightarrow> \<exists>es. those (map row_of body) = Some es"
  by (induction body) auto

lemma read_csv_valid_log: "valid_log f \<Longrightarrow> \<exists>es. read_csv f = Inr es"
proof (cases f)
  case Nil
  assume "valid_log f"
  with Nil show ?thesis by (simp add: valid_log_def)
next
  case (Cons header body)
  assume "valid_log f"
  with Cons have h: "header = Text ''r,l,t''" and b: "list_all (\<lambda>x. row_of x \<noteq> None) body"
    by (simp_all add: valid_log_def)
  from those_valid [OF b] obtain es where "those (map row_of body) = Some es" ..
  with Cons h show ?thesis by simp
qed

lemma EpisodeLogger_init_valid:
  "valid_log f \<Longrightarrow> \<exists>lg. EpisodeLogger_init (Some f) now0 now1 = Inr lg \<and> out_file lg = f"
  by (auto simp: EpisodeLogger_init_def dest: read_csv_valid_log [of f])

lemma LoggedEnv_init_valid:
  "valid_log f \<Longrightarrow> \<exists>le. LoggedEnv_init e (Some f) locking now0 now1 = Inr le \<and> log_file le = f"
proof -
  assume v: "valid_log f"
  then have ne: "f \<noteq> []" by (auto simp: valid_log_def)
  from read_csv_valid_log [OF v] obtain es where "read_csv f = Inr es" ..
  with ne show ?thesis
    by (cases "map col_t es") (simp_all add: LoggedEnv_init_def initialize_file_def)
qed

text \<open>
  Claim C3 at the input where the two openers part: a log file that exists and has zero
  bytes. \<^verbatim>\<open>LoggedEnv\<close> writes the header and starts afresh; \<^verbatim>\<open>EpisodeLogger\<close> hands the
  file to \<^verbatim>\<open>pandas.read_csv\<close>, which raises \<^verbatim>\<open>EmptyDataError\<close>.
\<close>

theorem EpisodeLogger_init_empty_file:
  "EpisodeLogger_init (Some []) now0 now1 = Inl EmptyDataError
   \<and> (\<exists>le. LoggedEnv_init e (Some []) locking now0 now1 = Inr le
         \<and> log_file le = [Text ''r,l,t''] \<and> env_start_time le = now0)"
  by (simp add: EpisodeLogger_init_def LoggedEnv_init_empty)

lemma open_episode_suffix:
  "open_episode acc trace =
     (if \<exists>x \<in> set trace. snd x then since_last_done trace else acc @ trace)"
proof (induction trace arbitrary: acc)
  case Nil
  show ?case by simp
next
  case (Cons x tr)
  obtain rew d where x: "x = (rew, d)" by (cases x)
  show ?case
  proof (cases "\<exists>y \<in> set tr. snd y")
    case True
    then obtain y where "y \<in> set (rev tr)" "\<not> \<not> snd y"
      by auto
    then have "takeWhile (\<lambda>step. \<not> snd step) (rev tr @ [x])
        = takeWhile (\<lambda>step. \<not> snd step) (rev tr)"
      by (rule takeWhile_append1)
    with True show ?thesis
      by (simp add: x Cons.IH since_last_done_def)
  next
    case False
    then have all: "\<And>y. y \<in> set (rev tr) \<Longrightarrow> \<not> snd y"
      by auto
    then have "takeWhile (\<lambda>step. \<not> snd step) (rev tr @ [x])
        = rev tr @ takeWhile (\<lambda>step. \<not> snd step) [x]"
      by (rule takeWhile_append2)
    then have sld: "since_last_done (x # tr) = (if d then tr else x # tr)"
      by (simp add: since_last_done_def x)
    have oe: "open_episode acc (x # tr) = (if d then tr else acc @ x # tr)"
      using False by (simp add: x Cons.IH)
    have ex: "(\<exists>a \<in> set (x # tr). snd a) = d"
      using False by (auto simp: x)
    show ?thesis
      unfolding oe ex sld by simp
  qed
qed

lemma open_episode_start: "open_episode [] trace = since_last_done trace"
proof (cases "\<exists>x \<in> set trace. snd x")
  case True
  then show ?thesis by (simp add: open_episode_suffix)
next
  case False
  then have tw: "takeWhile (\<lambda>step. \<not> snd step) (rev trace) = rev trace"
    by (simp add: takeWhile_eq_all_conv)
  show ?thesis
    using False by (simp add: open_episode_suffix since_last_done_def tw)
qed

lemma LoggedEnv_step_effect:
  assumes "env_step (env le) action = ((obs, rew, done, info), e')"
  shows "LoggedEnv_step env_step now action le =
     ((obs, rew, done, info),
      (if done
       then le\<lparr>env := e',
               log_file := log_file le @
                 [Row \<lparr>col_r = cur_reward le + rew, col_l = cur_timesteps le + 1,
                       col_t = now - env_start_time le\<rparr>],
               cur_timesteps := 0, cur_reward := 0\<rparr>
       else le\<lparr>env := e', cur_reward := cur_reward le + rew,
               cur_timesteps := cur_timesteps le + 1\<rparr>))"
  using assms by (simp add: LoggedEnv_step_def write_entry_def Let_def)

lemma run_steps_invariant:
  assumes "run_steps env_step steps le = (trace, le')"
    and "cur_reward le = sum_list (map fst acc)"
    and "cur_timesteps le = int (length acc)"
  shows "cur_reward le' = sum_list (map fst (open_episode acc trace))
    \<and> cur_timesteps le' = int (length (open_episode acc trace))
    \<and> (\<exists>new. log_file le' = log_file le @ new
          \<and> map row_totals new = map (\<lambda>ep. Some (episode_totals ep)) (episodes acc trace))"
  using assms
proof (induction steps arbitrary: le acc trace)
  case Nil
  then show ?case by simp
next
  case (Cons s rest)
  obtain now action where s: "s = (now, action)" by (cases s)
  obtain obs rew d info e' where st: "env_step (env le) action = ((obs, rew, d, info), e')"
    by (metis prod_cases3 surj_pair)
  note eff = LoggedEnv_step_effect [where env_step = env_step and le = le
      and action = action and now = now, OF st]
  show ?case
  proof (cases d)
    case True
    let ?row = "Row \<lparr>col_r = cur_reward le + rew, col_l = cur_timesteps le + 1,
                       col_t = now - env_start_time le\<rparr>"
    let ?le1 = "le\<lparr>env := e', log_file := log_file le @ [?row],
               cur_timesteps := 0, cur_reward := 0\<rparr>"
    obtain tr where tr: "run_steps env_step rest ?le1 = (tr, le')" "trace = (rew, d) # tr"
      using Cons.prems(1) True by (auto simp: s eff split: prod.splits)
    from Cons.IH [OF tr(1), of "[]"]
    obtain new where new: "cur_reward le' = sum_list (map fst (open_episode [] tr))"
      "cur_timesteps le' = int (length (open_episode [] tr))"
      "log_file le' = (log_file le @ [?row]) @ new"
      "map row_totals new = map (\<lambda>ep. Some (episode_totals ep)) (episodes [] tr)"
      by auto
    have "row_totals ?row = Some (episode_totals (acc @ [(rew, d)]))"
      using Cons.prems(2,3) by (simp add: row_totals_def episode_totals_def)
    with new(4) have "map row_totals (?row # new)
        = map (\<lambda>ep. Some (episode_totals ep)) (episodes acc trace)"
      using True tr(2) by simp
    moreover from new(3) have "log_file le' = log_file le @ (?row # new)" by simp
    ultimately show ?thesis
      using new(1,2) True tr(2) by auto
  next
    case False
    let ?le1 = "le\<lparr>env := e', cur_reward := cur_reward le + rew,
               cur_timesteps := cur_timesteps le + 1\<rparr>"
    obtain tr where tr: "run_steps env_step rest ?le1 = (tr, le')" "trace = (rew, d) # tr"
      using Cons.prems(1) False by (auto simp: s eff split: prod.splits)
    have "cur_reward ?le1 = sum_list (map fst (acc @ [(rew, d)]))"
      and "cur_timesteps ?le1 = int (length (acc @ [(rew, d)]))"
      using Cons.prems(2,3) by simp_all
    from Cons.IH [OF tr(1) this] show ?thesis
      using False tr(2) by simp
  qed
qed

lemma LoggedEnv_init_counters:
  "LoggedEnv_init e file locking now0 now1 = Inr le \<Longrightarrow>
     cur_reward le = 0 \<and> cur_timesteps le = 0"
  by (auto simp: LoggedEnv_init_def initialize_file_def split: if_splits sum.splits list.splits)

lemma since_last_done_reset:
  "trace \<noteq> [] \<Longrightarrow> snd (last trace) \<Longrightarrow> since_last_done trace = []"
  by (cases trace rule: rev_cases) (auto simp: since_last_done_def)

lemma episodes_partition:
  "concat (episodes acc trace) @ open_episode acc trace = acc @ trace"
  by (induction acc trace rule: episodes.induct) simp_all

lemma episodes_end_done:
  "ep \<in> set (episodes acc trace) \<Longrightarrow> ep \<noteq> [] \<and> snd (last ep)"
  by (induction acc trace rule: episodes.induct) (auto split: if_splits)

lemma run_steps_length:
  "run_steps env_step steps le = (trace, le') \<Longrightarrow> length trace = length steps"
  by (induction steps arbitrary: le trace) (auto split: prod.splits)

text \<open>
  Claim C10. Start from a wrapper whose two counters are 0 and make any number of
  \<^verbatim>\<open>_step\<close> calls. Afterwards \<open>cur_reward\<close> is the sum of the rewards and \<open>cur_timesteps\<close>
  the number of the steps taken since the last step that ended an episode; the file has
  grown by one record for every completed episode, in order, holding that episode's
  total reward and length; and right after a step that ended an episode both counters
  are 0.
\<close>

theorem LoggedEnv_counters:
  assumes "cur_reward le = 0" and "cur_timesteps le = 0"
    and "run_steps env_step steps le = (trace, le')"
  shows "cur_reward le' = sum_list (map fst (since_last_done trace))
    \<and> cur_timesteps le' = int (length (since_last_done trace))
    \<and> (\<exists>new. log_file le' = log_file le @ new
          \<and> map row_totals new = map (\<lambda>ep. Some (episode_totals ep)) (episodes [] trace))
    \<and> (trace \<noteq> [] \<and> snd (last trace) \<longrightarrow> cur_reward le' = 0 \<and> cur_timesteps le' = 0)"
proof -
  from assms(1,2) have "cur_reward le = sum_list (map fst [])"
    and "cur_timesteps le = int (length ([] :: (real \<times> bool) list))"
    by simp_all
  from run_steps_invariant [OF assms(3) this]
  have inv: "cur_reward le' = sum_list (map fst (since_last_done trace))"
    "cur_timesteps le' = int (length (since_last_done trace))"
    "\<exists>new. log_file le' = log_file le @ new
          \<and> map row_totals new = map (\<lambda>ep. Some (episode_totals ep)) (episodes [] trace)"
    by (simp_all add: open_episode_start)
  have "cur_reward le' = 0 \<and> cur_timesteps le' = 0" if "trace \<noteq> []" "snd (last trace)"
    using inv(1,2) since_last_done_reset [OF that] by simp
  with inv show ?thesis by blast
qed

lemma run_E:
  "run_steps env_E [(101, ()), (102, ()), (103, ()), (104, ())] fresh_env =
     ([(1, False), (2, False), (3, True), (4, False)],
      \<lparr>env = 4, env_start_time = 100, env_columns = [''r'', ''l'', ''t''],
       use_locking = False,
       log_file = [Text ''r,l,t'', Row \<lparr>col_r = 6, col_l = 3, col_t = 3\<rparr>],
       cur_timesteps = 1, cur_reward = 4\<rparr>)"
  by (simp add: LoggedEnv_step_def env_E_def write_entry_def fresh_env_def Let_def)

text \<open>
  Claim C10 on a run of four steps in which the third ends an episode: rewards 1, 2, 3
  are logged as one episode of length 3, and the counters then hold the fourth step.
\<close>

theorem LoggedEnv_counters_witness:
  "(\<exists>le'. run_steps env_E [(101, ()), (102, ()), (103, ()), (104, ())] fresh_env =
            ([(1, False), (2, False), (3, True), (4, False)], le')
      \<and> cur_reward le' = sum_list (map fst [(4, False)])
      \<and> cur_timesteps le' = 1
      \<and> log_file le' = [Text ''r,l,t'', Row \<lparr>col_r = 6, col_l = 3, col_t = 3\<rparr>])"
proof -
  have z: "cur_reward fresh_env = 0" "cur_timesteps fresh_env = 0"
    by (simp_all add: fresh_env_def)
  have s: "since_last_done [(1, False), (2, False), (3, True), (4 :: real, False)] = [(4, False)]"
    by (simp add: since_last_done_def)
  from LoggedEnv_counters [OF z run_E] s
  have "cur_reward \<lparr>env = 4, env_start_time = 100, env_columns = [''r'', ''l'', ''t''],
       use_locking = False,
       log_file = [Text ''r,l,t'', Row \<lparr>col_r = 6, col_l = 3, col_t = 3\<rparr>],
       cur_timesteps = 1, cur_reward = 4\<rparr> = sum_list (map fst [(4 :: real, False)])"
    by simp
  with run_E show ?thesis by simp
qed

end
